theory Spec2Isabelle
  imports Main
begin

section \<open>Data model\<close>

text \<open>
  The referral backend of \<^verbatim>\<open>src/bot.py\<close> keeps its whole state in one JSON document,
  \<^verbatim>\<open>referrals.json\<close>, of the shape
  \<^verbatim>\<open>{"referrals": [...], "paid_referrals": [...]}\<close>.
  Every entry of either list is a dictionary with the keys \<^verbatim>\<open>referrer\<close>,
  \<^verbatim>\<open>referee\<close> and \<^verbatim>\<open>paid\<close>.
\<close>

record referral =
  referrer :: string
  referee :: string
  paid :: bool

record db =
  referrals :: "referral list"
  paid_referrals :: "referral list"

text \<open>
  The content of the data file; \<open>None\<close> when the file does not exist yet. A handler reads
  it with \<open>load_data\<close> and writes it back with \<open>save_data\<close>; nothing is kept in memory
  between two requests.
\<close>

type_synonym data_file = "db option"

definition SECRET_KEY :: string where
  "SECRET_KEY = ''SUA_CHAVE_SECRETA_PARA_MARCAR_COMO_PAGO''"

text \<open>
  The JSON responses. An error response is one of four, named as the specification names
  them; \<open>http_status\<close> gives the status code the handler returns with it. The rejected
  faucet token of \<^verbatim>\<open>use_referral\<close> and the rejected secret key of
  \<^verbatim>\<open>mark_paid\<close> are both answered with 401 and are both \<open>Unauthorized\<close>.
\<close>

datatype error = InvalidAddress | Unauthorized | DuplicateReferee | CapExceeded

fun http_status :: "error \<Rightarrow> nat" where
  "http_status InvalidAddress = 400"
| "http_status Unauthorized = 401"
| "http_status DuplicateReferee = 400"
| "http_status CapExceeded = 400"

datatype message = LinkRegistered | ReferralRecorded | AllMarkedPaid

record status_body =
  st_total_referrals :: nat
  st_paid :: nat
  st_unpaid :: nat
  st_referrals :: "referral list"

record payout_entry =
  wallet :: string
  amount :: nat

record payout_body =
  total_people :: nat
  total_ommv_to_send :: nat
  multisend_list :: "payout_entry list"

section \<open>Helpers\<close>

text \<open>
  \<^verbatim>\<open>str.lower()\<close>. A \<open>string\<close> is a list of characters with code points below 256;
  on these Python lowers the letters \<open>A\<close> to \<open>Z\<close> and the Latin-1 capitals (code points
  192 to 222, the multiplication sign 215 apart) by adding 32 and leaves every other
  character alone.
\<close>

definition lower_char :: "char \<Rightarrow> char" where
  "lower_char c =
     (let n = (of_char c :: nat)
      in if (65 \<le> n \<and> n \<le> 90) \<or> (192 \<le> n \<and> n \<le> 222 \<and> n \<noteq> 215)
         then char_of (n + 32) else c)"

definition lower :: "string \<Rightarrow> string" where
  "lower s = map lower_char s"

text \<open>\<^verbatim>\<open>s.startswith(p)\<close>\<close>

definition startswith :: "string \<Rightarrow> string \<Rightarrow> bool" where
  "startswith s p = (take (length p) s = p)"

definition is_valid_address :: "string \<Rightarrow> bool" where
  "is_valid_address addr = (startswith addr ''0x'' \<and> length addr = 42)"

text \<open>
  \<^verbatim>\<open>load_data\<close> creates the file with two empty lists when it does not exist, then
  reads it; \<^verbatim>\<open>save_data\<close> overwrites it.
\<close>

definition load_data :: "data_file \<Rightarrow> db \<times> data_file" where
  "load_data f =
     (case f of
        None \<Rightarrow> (\<lparr>referrals = [], paid_referrals = []\<rparr>,
                 Some \<lparr>referrals = [], paid_referrals = []\<rparr>)
      | Some d \<Rightarrow> (d, Some d))"

definition save_data :: "db \<Rightarrow> data_file \<Rightarrow> data_file" where
  "save_data data f = Some data"

section \<open>Request handlers\<close>

text \<open>
  \<^verbatim>\<open>POST /api/register-referral\<close>. The argument is the \<^verbatim>\<open>address\<close> field of the
  request body (the empty string when the field is absent). \<^verbatim>\<open>next(..., None)\<close> over
  the generator is \<open>find\<close>; a dictionary found is never empty, so \<^verbatim>\<open>not existing\<close>
  holds exactly when nothing was found.
\<close>

definition register_referral :: "string \<Rightarrow> data_file \<Rightarrow> (error + message) \<times> data_file" where
  "register_referral address_field f =
     (let address = lower address_field
      in if \<not> is_valid_address address then (Inl InvalidAddress, f)
         else
           (let (d, f1) = load_data f;
                existing = find (\<lambda>item. referrer item = address) (referrals d)
            in case existing of
                 None \<Rightarrow>
                   (Inr LinkRegistered,
                    save_data
                      (d\<lparr>referrals := referrals d @
                           [\<lparr>referrer = address, referee = '''', paid = False\<rparr>]\<rparr>) f1)
               | Some item \<Rightarrow> (Inr LinkRegistered, f1)))"

text \<open>
  \<^verbatim>\<open>POST /api/use-referral\<close>, with the three fields of the request body. The rate limit
  of the route belongs to the web framework and is not part of the model.
\<close>

definition use_referral :: "string \<Rightarrow> string \<Rightarrow> string \<Rightarrow> data_file \<Rightarrow> (error + message) \<times> data_file" where
  "use_referral referrer_field referee_field faucet_token f =
     (let referrer' = lower referrer_field;
          referee' = lower referee_field
      in if \<not> is_valid_address referrer' \<or> \<not> is_valid_address referee'
         then (Inl InvalidAddress, f)
         else if faucet_token \<noteq> ''VALID_FAUCET_USAGE'' then (Inl Unauthorized, f)
         else
           (let (d, f1) = load_data f;
                already_referenced = find (\<lambda>item. referee item = referee') (referrals d)
            in case already_referenced of
                 Some item \<Rightarrow> (Inl DuplicateReferee, f1)
               | None \<Rightarrow>
                   (let total_referrals =
                          sum_list (map (\<lambda>item. 1::nat)
                            (filter (\<lambda>item. referrer item = referrer') (referrals d)))
                    in if total_referrals \<ge> 200 then (Inl CapExceeded, f1)
                       else
                         (Inr ReferralRecorded,
                          save_data
                            (d\<lparr>referrals := referrals d @
                                 [\<lparr>referrer = referrer', referee = referee', paid = False\<rparr>]\<rparr>)
                            f1))))"

text \<open>\<^verbatim>\<open>GET /api/referral-status/<address>\<close>\<close>

definition referral_status :: "string \<Rightarrow> data_file \<Rightarrow> status_body \<times> data_file" where
  "referral_status address_param f =
     (let address = lower address_param;
          (d, f1) = load_data f;
          rs = filter (\<lambda>r. referrer r = address) (referrals d);
          total = length rs;
          paid_n = sum_list (map (\<lambda>r. 1::nat) (filter (\<lambda>r. paid r) rs))
      in (\<lparr>st_total_referrals = total, st_paid = paid_n, st_unpaid = total - paid_n,
           st_referrals = rs\<rparr>, f1))"

text \<open>
  \<^verbatim>\<open>GET /api/payout-list\<close>. The loop over the unpaid records appends two entries per
  record, the referrer's and the referee's.
\<close>

definition payout_list :: "data_file \<Rightarrow> payout_body \<times> data_file" where
  "payout_list f =
     (let (d, f1) = load_data f;
          unpaid = filter (\<lambda>r. \<not> paid r) (referrals d);
          multisend = foldl (\<lambda>acc ref. acc @ [\<lparr>wallet = referrer ref, amount = 5\<rparr>]
                                            @ [\<lparr>wallet = referee ref, amount = 5\<rparr>]) [] unpaid
      in (\<lparr>total_people = length multisend,
           total_ommv_to_send = sum_list (map amount multisend),
           multisend_list = multisend\<rparr>, f1))"

text \<open>
  \<^verbatim>\<open>POST /api/mark-paid\<close>. The argument is the \<^verbatim>\<open>X-Secret-Key\<close> header, \<open>None\<close>
  when the request has none. The loop sets \<^verbatim>\<open>paid\<close> in every active record, then
  \<^verbatim>\<open>db["paid_referrals"] = db["referrals"]\<close> assigns that list and
  \<^verbatim>\<open>db["referrals"] = []\<close> starts a new one.
\<close>

definition mark_paid :: "string option \<Rightarrow> data_file \<Rightarrow> (error + message) \<times> data_file" where
  "mark_paid secret_key f =
     (if secret_key \<noteq> Some SECRET_KEY then (Inl Unauthorized, f)
      else
        (let (d, f1) = load_data f;
             d1 = d\<lparr>referrals := map (\<lambda>ref. ref\<lparr>paid := True\<rparr>) (referrals d)\<rparr>;
             d2 = d1\<lparr>paid_referrals := referrals d1\<rparr>;
             d3 = d2\<lparr>referrals := []\<rparr>
         in (Inr AllMarkedPaid, save_data d3 f1)))"

section \<open>The ledger and runs of requests\<close>

text \<open>The two collections a handler sees when it loads the file.\<close>

definition active :: "data_file \<Rightarrow> referral list" where
  "active f = referrals (fst (load_data f))"

definition archived :: "data_file \<Rightarrow> referral list" where
  "archived f = paid_referrals (fst (load_data f))"

text \<open>The number of active records of a referrer.\<close>

definition referrer_count :: "string \<Rightarrow> data_file \<Rightarrow> nat" where
  "referrer_count r f = length (filter (\<lambda>item. referrer item = r) (active f))"

datatype request =
    RegisterReferral string
  | UseReferral string string string
  | ReferralStatus string
  | PayoutList
  | MarkPaid "string option"

fun step :: "request \<Rightarrow> data_file \<Rightarrow> data_file" where
  "step (RegisterReferral a) f = snd (register_referral a f)"
| "step (UseReferral r e t) f = snd (use_referral r e t f)"
| "step (ReferralStatus a) f = snd (referral_status a f)"
| "step PayoutList f = snd (payout_list f)"
| "step (MarkPaid k) f = snd (mark_paid k f)"

fun run :: "request list \<Rightarrow> data_file \<Rightarrow> data_file" where
  "run [] f = f"
| "run (q # qs) f = run qs (step q f)"

text \<open>A request that settles: \<^verbatim>\<open>mark-paid\<close> with the right key.\<close>

fun settles :: "request \<Rightarrow> bool" where
  "settles (MarkPaid k) = (k = Some SECRET_KEY)"
| "settles _ = False"

text \<open>
  A \<^verbatim>\<open>use-referral\<close> request for referrer \<open>r\<close> (as stored, in lower case) that is
  answered with success in the state \<open>f\<close>.
\<close>

fun attaches :: "string \<Rightarrow> request \<Rightarrow> data_file \<Rightarrow> bool" where
  "attaches r (UseReferral r' e t) f =
     (lower r' = r \<and> fst (use_referral r' e t f) = Inr ReferralRecorded)"
| "attaches r _ f = False"

text \<open>How many requests of a run are successful attachments to referrer \<open>r\<close>.\<close>

fun attach_count :: "string \<Rightarrow> request list \<Rightarrow> data_file \<Rightarrow> nat" where
  "attach_count r [] f = 0"
| "attach_count r (q # qs) f =
     (if attaches r q f then 1 else 0) + attach_count r qs (step q f)"

section \<open>Sample data\<close>

text \<open>Well-formed addresses for the concrete runs below.\<close>

definition alice :: string where
  "alice = ''0xaaaaaaaaaaaaaaaaaaaaaaaaaaaaaaaaaaaaaaaa''"

definition bob :: string where
  "bob = ''0xbbbbbbbbbbbbbbbbbbbbbbbbbbbbbbbbbbbbbbbb''"

definition carol :: string where
  "carol = ''0xcccccccccccccccccccccccccccccccccccccccc''"

text \<open>A family of pairwise different addresses, for \<open>n\<close> below 256.\<close>

definition addr_no :: "nat \<Rightarrow> string" where
  "addr_no n =
     ''0x00000000000000000000000000000000000000'' @ [char_of (97 + n div 16), char_of (97 + n mod 16)]"

text \<open>The ledger in which \<open>alice\<close> has referred 200 wallets.\<close>

definition full_house :: data_file where
  "full_house =
     Some \<lparr>referrals = map (\<lambda>n. \<lparr>referrer = alice, referee = addr_no n, paid = False\<rparr>) [0..<200],
           paid_referrals = []\<rparr>"

text \<open>The ledger in which \<open>alice\<close> has registered and then referred 199 wallets.\<close>

definition registered_house :: data_file where
  "registered_house =
     Some \<lparr>referrals = \<lparr>referrer = alice, referee = [], paid = False\<rparr>
             # map (\<lambda>n. \<lparr>referrer = alice, referee = addr_no n, paid = False\<rparr>) [0..<199],
           paid_referrals = []\<rparr>"

text \<open>The first \<open>k\<close> of these wallets use the referral link of \<open>alice\<close>, one after the other.\<close>

definition attach_run :: "nat \<Rightarrow> request list" where
  "attach_run k = map (\<lambda>n. UseReferral alice (addr_no n) ''VALID_FAUCET_USAGE'') [0..<k]"

section \<open>The address validator\<close>

lemma startswith_0x: "startswith s ''0x'' \<longleftrightarrow> (\<exists>t. s = ''0x'' @ t)"
proof
  assume "startswith s ''0x''"
  then have "take (length ''0x'') s = ''0x''" by (simp only: startswith_def)
  then have "s = ''0x'' @ drop (length ''0x'') s" by (metis append_take_drop_id)
  then show "\<exists>t. s = ''0x'' @ t" ..
next
  assume "\<exists>t. s = ''0x'' @ t"
  then show "startswith s ''0x''" by (auto simp: startswith_def)
qed

text \<open>
  C9: \<open>is_valid_address s\<close> holds exactly when \<open>s\<close> is the prefix \<open>0x\<close> followed by
  any 40 characters, that is, when it starts with \<open>0x\<close> and has 42 characters; what the
  40 characters are is not looked at.
\<close>

theorem is_valid_address_iff:
  "is_valid_address s \<longleftrightarrow> (\<exists>t. s = ''0x'' @ t \<and> length t = 40)"
  unfolding is_valid_address_def startswith_0x by auto

theorem is_valid_address_iff_witness:
  "is_valid_address (''0x'' @ replicate 40 (CHR ''z''))
   \<and> \<not> is_valid_address (''0x'' @ replicate 39 (CHR ''a''))
   \<and> \<not> is_valid_address (''1x'' @ replicate 40 (CHR ''a''))"
  using is_valid_address_iff [of "''0x'' @ replicate 40 (CHR ''z'')"]
    is_valid_address_iff [of "''0x'' @ replicate 39 (CHR ''a'')"]
    is_valid_address_iff [of "''1x'' @ replicate 40 (CHR ''a'')"]
  by simp

section \<open>What each handler does to the ledger\<close>

lemma sum_list_ones:
  "sum_list (map (\<lambda>x. 1::nat) xs) = length xs"
  "sum_list (map (\<lambda>x. Suc 0) xs) = length xs"
  by (induction xs) simp_all

lemma active_simps: "active None = []" "active (Some d) = referrals d"
  by (simp_all add: active_def load_data_def)

lemma archived_simps: "archived None = []" "archived (Some d) = paid_referrals d"
  by (simp_all add: archived_def load_data_def)

lemma find_None_image: "find (\<lambda>item. g item = v) xs = None \<longleftrightarrow> v \<notin> g ` set xs"
  by (auto simp: find_None_iff)

lemma find_Some_image: "find (\<lambda>item. g item = v) xs = Some y \<Longrightarrow> v \<in> g ` set xs"
  by (auto simp: find_Some_iff)

lemma use_referral_result:
  "fst (use_referral r e t f) =
     (if \<not> is_valid_address (lower r) \<or> \<not> is_valid_address (lower e) then Inl InvalidAddress
      else if t \<noteq> ''VALID_FAUCET_USAGE'' then Inl Unauthorized
      else if lower e \<in> referee ` set (active f) then Inl DuplicateReferee
      else if 200 \<le> referrer_count (lower r) f then Inl CapExceeded
      else Inr ReferralRecorded)"
  by (cases f)
    (auto simp: use_referral_def load_data_def save_data_def Let_def sum_list_ones
      referrer_count_def active_simps find_None_image
      split: option.splits dest: find_Some_image)

lemma use_referral_failure_file:
  "fst (use_referral r e t f) = Inl err \<Longrightarrow> snd (use_referral r e t f) = f"
  by (cases f)
    (auto simp: use_referral_def load_data_def save_data_def Let_def sum_list_ones
      split: option.splits if_splits)

lemma use_referral_success_active:
  "fst (use_referral r e t f) = Inr m \<Longrightarrow>
   active (snd (use_referral r e t f)) =
     active f @ [\<lparr>referrer = lower r, referee = lower e, paid = False\<rparr>]"
  by (cases f)
    (auto simp: use_referral_def load_data_def save_data_def Let_def active_simps
      split: option.splits if_splits)

lemma use_referral_active:
  "active (snd (use_referral r e t f)) =
     (if fst (use_referral r e t f) = Inr ReferralRecorded
      then active f @ [\<lparr>referrer = lower r, referee = lower e, paid = False\<rparr>]
      else active f)"
proof (cases "fst (use_referral r e t f)")
  case (Inl err)
  then show ?thesis by (simp add: use_referral_failure_file)
next
  case (Inr m)
  then have "fst (use_referral r e t f) = Inr ReferralRecorded"
    by (simp add: use_referral_result split: if_splits)
  then show ?thesis by (simp add: use_referral_success_active)
qed

lemma use_referral_archived:
  "archived (snd (use_referral r e t f)) = archived f"
  by (cases f)
    (auto simp: use_referral_def load_data_def save_data_def Let_def archived_simps
      split: option.splits if_splits)

lemma register_referral_result:
  "fst (register_referral a f) =
     (if is_valid_address (lower a) then Inr LinkRegistered else Inl InvalidAddress)"
  by (cases f)
    (auto simp: register_referral_def load_data_def save_data_def Let_def
      split: option.splits)

lemma register_referral_active:
  "active (snd (register_referral a f)) =
     (if is_valid_address (lower a) \<and> lower a \<notin> referrer ` set (active f)
      then active f @ [\<lparr>referrer = lower a, referee = '''', paid = False\<rparr>]
      else active f)"
  by (cases f)
    (auto simp: register_referral_def load_data_def save_data_def Let_def active_simps
      find_None_image split: option.splits dest: find_Some_image)

lemma register_referral_archived:
  "archived (snd (register_referral a f)) = archived f"
  by (cases f)
    (auto simp: register_referral_def load_data_def save_data_def Let_def archived_simps
      split: option.splits)

lemma referral_status_ledger:
  "active (snd (referral_status a f)) = active f"
  "archived (snd (referral_status a f)) = archived f"
  by (cases f; simp add: referral_status_def load_data_def Let_def active_simps archived_simps)+

lemma payout_list_ledger:
  "active (snd (payout_list f)) = active f"
  "archived (snd (payout_list f)) = archived f"
  by (cases f; simp add: payout_list_def load_data_def Let_def active_simps archived_simps)+

lemma mark_paid_active:
  "active (snd (mark_paid k f)) = (if k = Some SECRET_KEY then [] else active f)"
  by (cases f; simp add: mark_paid_def load_data_def save_data_def Let_def active_simps)

lemma mark_paid_archived:
  "archived (snd (mark_paid k f)) =
     (if k = Some SECRET_KEY then map (\<lambda>ref. ref\<lparr>paid := True\<rparr>) (active f) else archived f)"
  by (cases f; simp add: mark_paid_def load_data_def save_data_def Let_def active_simps archived_simps)

lemma mark_paid_result:
  "fst (mark_paid k f) = (if k = Some SECRET_KEY then Inr AllMarkedPaid else Inl Unauthorized)"
  by (simp add: mark_paid_def Let_def split: prod.splits)

section \<open>Invariants of runs\<close>



lemma step_count:
  assumes "\<not> settles q"
  shows "referrer_count r f + (if attaches r q f then 1 else 0) \<le> referrer_count r (step q f)"
proof (cases q)
  case (UseReferral r' e t)
  show ?thesis
  proof (cases "fst (use_referral r' e t f)")
    case (Inl err)
    then show ?thesis using UseReferral by (simp add: use_referral_failure_file)
  next
    case (Inr m)
    then show ?thesis using UseReferral
      by (simp add: use_referral_success_active referrer_count_def)
  qed
next
  case (RegisterReferral a)
  then show ?thesis by (simp add: register_referral_active referrer_count_def)
next
  case (ReferralStatus a)
  then show ?thesis by (simp add: referral_status_ledger referrer_count_def)
next
  case PayoutList
  then show ?thesis by (simp add: payout_list_ledger referrer_count_def)
next
  case (MarkPaid k)
  then show ?thesis using assms by (simp add: mark_paid_active referrer_count_def)
qed

lemma run_count:
  "\<forall>q\<in>set qs. \<not> settles q \<Longrightarrow>
   referrer_count r f + attach_count r qs f \<le> referrer_count r (run qs f)"
proof (induction qs arbitrary: f)
  case Nil
  then show ?case by simp
next
  case (Cons q qs)
  have "referrer_count r f + (if attaches r q f then 1 else 0) \<le> referrer_count r (step q f)"
    using Cons.prems by (simp add: step_count)
  moreover have "referrer_count r (step q f) + attach_count r qs (step q f)
      \<le> referrer_count r (run qs (step q f))"
    using Cons.prems by (intro Cons.IH) simp
  ultimately show ?case by simp
qed

lemma step_cap:
  assumes "referrer_count r f \<le> 200"
  shows "referrer_count r (step q f) \<le> 200"
proof (cases q)
  case (UseReferral r' e t)
  show ?thesis
  proof (cases "fst (use_referral r' e t f)")
    case (Inl err)
    then show ?thesis using UseReferral assms by (simp add: use_referral_failure_file)
  next
    case (Inr m)
    then have "\<not> 200 \<le> referrer_count (lower r') f"
      by (simp add: use_referral_result split: if_splits)
    then show ?thesis using UseReferral assms Inr
      by (auto simp: use_referral_success_active referrer_count_def)
  qed
next
  case (RegisterReferral a)
  have "lower a \<notin> referrer ` set (active f) \<Longrightarrow> filter (\<lambda>item. referrer item = lower a) (active f) = []"
    by (force simp: filter_empty_conv)
  then show ?thesis using assms RegisterReferral
    by (auto simp: register_referral_active referrer_count_def)
next
  case (ReferralStatus a)
  then show ?thesis using assms by (simp add: referral_status_ledger referrer_count_def)
next
  case PayoutList
  then show ?thesis using assms by (simp add: payout_list_ledger referrer_count_def)
next
  case (MarkPaid k)
  then show ?thesis using assms by (simp add: mark_paid_active referrer_count_def)
qed

lemma run_cap:
  "referrer_count r f \<le> 200 \<Longrightarrow> referrer_count r (run qs f) \<le> 200"
  by (induction qs arbitrary: f) (simp_all add: step_cap)

lemma step_unpaid:
  assumes "\<forall>x\<in>set (active f). \<not> paid x"
  shows "\<forall>x\<in>set (active (step q f)). \<not> paid x"
proof (cases q)
  case (UseReferral r' e t)
  show ?thesis
  proof (cases "fst (use_referral r' e t f)")
    case (Inl err)
    then show ?thesis using UseReferral assms by (simp add: use_referral_failure_file)
  next
    case (Inr m)
    then show ?thesis using UseReferral assms
      by (auto simp: use_referral_success_active)
  qed
next
  case (RegisterReferral a)
  then show ?thesis using assms by (auto simp: register_referral_active)
next
  case (ReferralStatus a)
  then show ?thesis using assms by (simp add: referral_status_ledger)
next
  case PayoutList
  then show ?thesis using assms by (simp add: payout_list_ledger)
next
  case (MarkPaid k)
  then show ?thesis using assms by (simp add: mark_paid_active)
qed

lemma run_unpaid:
  "\<forall>x\<in>set (active f). \<not> paid x \<Longrightarrow> \<forall>x\<in>set (active (run qs f)). \<not> paid x"
proof (induction qs arbitrary: f)
  case Nil
  then show ?case by simp
next
  case (Cons q qs)
  then show ?case using step_unpaid [of f q] by simp
qed

lemma run_append: "run (xs @ ys) f = run ys (run xs f)"
  by (induction xs arbitrary: f) simp_all

lemma attach_count_append:
  "attach_count r (xs @ ys) f = attach_count r xs f + attach_count r ys (run xs f)"
  by (induction xs arbitrary: f) simp_all

section \<open>Facts about the sample data\<close>

lemma lower_samples: "lower alice = alice" "lower bob = bob" "lower carol = carol"
  by (simp_all add: lower_def lower_char_def alice_def bob_def carol_def)

lemma valid_samples: "is_valid_address alice" "is_valid_address bob" "is_valid_address carol"
  by (simp_all add: is_valid_address_def startswith_def alice_def bob_def carol_def)

lemma distinct_samples:
  "alice \<noteq> bob" "alice \<noteq> carol" "bob \<noteq> carol" "bob \<noteq> alice" "carol \<noteq> alice" "carol \<noteq> bob"
  "alice \<noteq> []" "bob \<noteq> []" "carol \<noteq> []"
  by (simp_all add: alice_def bob_def carol_def)

lemmas sample_simps = lower_samples valid_samples distinct_samples active_simps archived_simps

section \<open>Settlement\<close>

text \<open>
  C1 (the archive is append-only; settlement moves the active records to the end of the
  archive). The handler assigns the list of active records, each marked paid, to
  \<^verbatim>\<open>paid_referrals\<close>: after a settlement the archive is exactly that list, and the
  active list is empty. The records archived before are not kept. In the run below \<open>bob\<close> is
  attached and settled, then \<open>carol\<close> is attached: the archive holds the record of
  \<open>bob\<close>, and after the next settlement it holds the record of \<open>carol\<close> only.
\<close>

theorem mark_paid_replaces_archive:
  "archived (snd (mark_paid (Some SECRET_KEY) f)) = map (\<lambda>ref. ref\<lparr>paid := True\<rparr>) (active f)
   \<and> active (snd (mark_paid (Some SECRET_KEY) f)) = []"
  by (simp add: mark_paid_active mark_paid_archived)

theorem mark_paid_replaces_archive_witness:
  "archived (run [UseReferral alice bob ''VALID_FAUCET_USAGE'', MarkPaid (Some SECRET_KEY),
                  UseReferral alice carol ''VALID_FAUCET_USAGE''] None)
     = [\<lparr>referrer = alice, referee = bob, paid = True\<rparr>]
   \<and> active (run [UseReferral alice bob ''VALID_FAUCET_USAGE'', MarkPaid (Some SECRET_KEY),
                  UseReferral alice carol ''VALID_FAUCET_USAGE''] None)
     = [\<lparr>referrer = alice, referee = carol, paid = False\<rparr>]
   \<and> archived (snd (mark_paid (Some SECRET_KEY)
        (run [UseReferral alice bob ''VALID_FAUCET_USAGE'', MarkPaid (Some SECRET_KEY),
              UseReferral alice carol ''VALID_FAUCET_USAGE''] None)))
     = [\<lparr>referrer = alice, referee = carol, paid = True\<rparr>]
   \<and> \<lparr>referrer = alice, referee = bob, paid = True\<rparr>
       \<notin> set (archived (snd (mark_paid (Some SECRET_KEY)
        (run [UseReferral alice bob ''VALID_FAUCET_USAGE'', MarkPaid (Some SECRET_KEY),
              UseReferral alice carol ''VALID_FAUCET_USAGE''] None))))"
proof -
  let ?f = "run [UseReferral alice bob ''VALID_FAUCET_USAGE'', MarkPaid (Some SECRET_KEY),
                 UseReferral alice carol ''VALID_FAUCET_USAGE''] None"
  have before: "archived ?f = [\<lparr>referrer = alice, referee = bob, paid = True\<rparr>]"
    "active ?f = [\<lparr>referrer = alice, referee = carol, paid = False\<rparr>]"
    by (simp_all add: use_referral_active use_referral_archived use_referral_result
        mark_paid_active mark_paid_archived referrer_count_def sample_simps)
  from mark_paid_replaces_archive [of ?f]
  have after: "archived (snd (mark_paid (Some SECRET_KEY) ?f))
      = [\<lparr>referrer = alice, referee = carol, paid = True\<rparr>]"
    unfolding before by simp
  show ?thesis
    unfolding after before by (simp add: distinct_samples)
qed

text \<open>
  C2 (settlement with no active record changes neither collection). With no active record
  the handler answers with success and leaves the active list empty, but the list it
  assigns to \<^verbatim>\<open>paid_referrals\<close> is the empty one: the archive is empty afterwards,
  whatever it held. In the run below the archive holds one record after the first
  settlement and none after the second.
\<close>

theorem mark_paid_empty_active_clears_archive:
  "active f = [] \<Longrightarrow>
   fst (mark_paid (Some SECRET_KEY) f) = Inr AllMarkedPaid
   \<and> active (snd (mark_paid (Some SECRET_KEY) f)) = []
   \<and> archived (snd (mark_paid (Some SECRET_KEY) f)) = []"
  by (simp add: mark_paid_active mark_paid_archived mark_paid_result)

theorem mark_paid_empty_active_clears_archive_witness:
  "active (run [UseReferral alice bob ''VALID_FAUCET_USAGE'', MarkPaid (Some SECRET_KEY)] None) = []
   \<and> archived (run [UseReferral alice bob ''VALID_FAUCET_USAGE'', MarkPaid (Some SECRET_KEY)] None)
       = [\<lparr>referrer = alice, referee = bob, paid = True\<rparr>]
   \<and> fst (mark_paid (Some SECRET_KEY)
        (run [UseReferral alice bob ''VALID_FAUCET_USAGE'', MarkPaid (Some SECRET_KEY)] None))
       = Inr AllMarkedPaid
   \<and> archived (snd (mark_paid (Some SECRET_KEY)
        (run [UseReferral alice bob ''VALID_FAUCET_USAGE'', MarkPaid (Some SECRET_KEY)] None))) = []"
proof -
  let ?f = "run [UseReferral alice bob ''VALID_FAUCET_USAGE'', MarkPaid (Some SECRET_KEY)] None"
  have empty: "active ?f = []"
    by (simp add: mark_paid_active)
  have before: "archived ?f = [\<lparr>referrer = alice, referee = bob, paid = True\<rparr>]"
    by (simp add: use_referral_active use_referral_result mark_paid_archived
        referrer_count_def sample_simps)
  from mark_paid_empty_active_clears_archive [OF empty] empty before
  show ?thesis by simp
qed

section \<open>Registration\<close>

lemma register_referral_twice:
  "snd (register_referral a (snd (register_referral a f))) = snd (register_referral a f)"
  by (cases f)
    (auto simp: register_referral_def load_data_def save_data_def Let_def find_None_image
      split: option.splits)

text \<open>
  C3 as stated (a registration record is appended exactly when the referrer has no active
  record with an empty referee) fails: \<open>alice\<close> has one active record, with referee
  \<open>bob\<close>, and none with an empty referee, yet registering her appends nothing, and after
  two registrations she has no record with an empty referee.
\<close>

theorem register_referral_skips_attached_referrer:
  "is_valid_address alice
   \<and> \<not> (\<exists>x\<in>set (active (Some \<lparr>referrals = [\<lparr>referrer = alice, referee = bob, paid = False\<rparr>],
                                  paid_referrals = []\<rparr>)). referrer x = alice \<and> referee x = '''')
   \<and> active (snd (register_referral alice
         (Some \<lparr>referrals = [\<lparr>referrer = alice, referee = bob, paid = False\<rparr>], paid_referrals = []\<rparr>)))
       = [\<lparr>referrer = alice, referee = bob, paid = False\<rparr>]
   \<and> filter (\<lambda>x. referrer x = alice \<and> referee x = '''')
        (active (run [RegisterReferral alice, RegisterReferral alice]
          (Some \<lparr>referrals = [\<lparr>referrer = alice, referee = bob, paid = False\<rparr>], paid_referrals = []\<rparr>)))
       = []"
  by (simp add: register_referral_active sample_simps)

text \<open>
  C3, amended: \<open>register_referral\<close> appends the record of the lower-cased address with an
  empty referee, unpaid, exactly when that address is well-formed and no active record
  has it as referrer, whatever the referee of such a record; the archive is untouched. A
  second registration of the same address changes nothing. After two registrations the
  number of active records with that referrer and an empty referee is one when a record
  was appended, and what it was before otherwise.
\<close>

theorem register_referral_appends_iff:
  "active (snd (register_referral a f)) =
     (if is_valid_address (lower a) \<and> lower a \<notin> referrer ` set (active f)
      then active f @ [\<lparr>referrer = lower a, referee = '''', paid = False\<rparr>]
      else active f)
   \<and> archived (snd (register_referral a f)) = archived f
   \<and> run [RegisterReferral a, RegisterReferral a] f = run [RegisterReferral a] f
   \<and> length (filter (\<lambda>x. referrer x = lower a \<and> referee x = '''')
        (active (run [RegisterReferral a, RegisterReferral a] f))) =
      (if is_valid_address (lower a) \<and> lower a \<notin> referrer ` set (active f) then 1
       else length (filter (\<lambda>x. referrer x = lower a \<and> referee x = '''') (active f)))"
proof -
  let ?reg = "\<lparr>referrer = lower a, referee = '''', paid = False\<rparr>"
  let ?new = "is_valid_address (lower a) \<and> lower a \<notin> referrer ` set (active f)"
  have once: "active (snd (register_referral a f)) = (if ?new then active f @ [?reg] else active f)"
    by (rule register_referral_active)
  have twice: "run [RegisterReferral a, RegisterReferral a] f = run [RegisterReferral a] f"
    by (simp add: register_referral_twice)
  have none: "filter (\<lambda>x. referrer x = lower a \<and> referee x = '''') (active f) = []"
    if "lower a \<notin> referrer ` set (active f)"
    using that by (force simp: filter_empty_conv)
  have count: "length (filter (\<lambda>x. referrer x = lower a \<and> referee x = '''')
        (active (run [RegisterReferral a, RegisterReferral a] f))) =
      (if ?new then 1
       else length (filter (\<lambda>x. referrer x = lower a \<and> referee x = '''') (active f)))"
    unfolding twice using none by (simp add: once)
  show ?thesis
    using once twice count register_referral_archived [of a f] by blast
qed

theorem register_referral_appends_iff_witness:
  "active (snd (register_referral alice None)) = [\<lparr>referrer = alice, referee = '''', paid = False\<rparr>]
   \<and> length (filter (\<lambda>x. referrer x = alice \<and> referee x = '''')
        (active (run [RegisterReferral alice, RegisterReferral alice] None))) = 1
   \<and> active (snd (register_referral alice
         (Some \<lparr>referrals = [\<lparr>referrer = alice, referee = bob, paid = False\<rparr>], paid_referrals = []\<rparr>)))
       = [\<lparr>referrer = alice, referee = bob, paid = False\<rparr>]"
  using register_referral_appends_iff [of alice None]
    register_referral_appends_iff [of alice
      "Some \<lparr>referrals = [\<lparr>referrer = alice, referee = bob, paid = False\<rparr>], paid_referrals = []\<rparr>"]
  by (simp add: sample_simps)

section \<open>Attaching a referee\<close>




section \<open>More facts about the handlers and the sample data\<close>

lemma addr_no_not_sample:
  "addr_no n \<noteq> alice" "addr_no n \<noteq> bob" "addr_no n \<noteq> carol"
  "alice \<noteq> addr_no n" "bob \<noteq> addr_no n" "carol \<noteq> addr_no n"
  by (simp_all add: addr_no_def alice_def bob_def carol_def)

lemma full_house_count: "referrer_count alice full_house = 200"
  by (simp add: referrer_count_def full_house_def active_simps filter_map o_def)

lemma full_house_referees: "bob \<notin> referee ` set (active full_house)"
  by (auto simp: full_house_def active_simps addr_no_not_sample)

section \<open>The order of the checks\<close>

text \<open>
  C5: \<open>use_referral\<close> checks, in this order, the format of both addresses (after
  lower-casing), the faucet token, whether the referee is already the referee of an
  active record, and whether the referrer has 200 active records or more; the first
  check that fails decides the error, and the request succeeds when none fails. So a
  malformed address with a wrong token is answered with \<open>InvalidAddress\<close>. An error
  response leaves the data file as it was.
\<close>

theorem use_referral_validation_order:
  "(\<not> (is_valid_address (lower r) \<and> is_valid_address (lower e)) \<longrightarrow>
      fst (use_referral r e t f) = Inl InvalidAddress)
   \<and> (is_valid_address (lower r) \<and> is_valid_address (lower e)
        \<and> t \<noteq> ''VALID_FAUCET_USAGE'' \<longrightarrow>
      fst (use_referral r e t f) = Inl Unauthorized)
   \<and> (is_valid_address (lower r) \<and> is_valid_address (lower e)
        \<and> t = ''VALID_FAUCET_USAGE'' \<and> lower e \<in> referee ` set (active f) \<longrightarrow>
      fst (use_referral r e t f) = Inl DuplicateReferee)
   \<and> (is_valid_address (lower r) \<and> is_valid_address (lower e)
        \<and> t = ''VALID_FAUCET_USAGE'' \<and> lower e \<notin> referee ` set (active f)
        \<and> 200 \<le> referrer_count (lower r) f \<longrightarrow>
      fst (use_referral r e t f) = Inl CapExceeded)
   \<and> (is_valid_address (lower r) \<and> is_valid_address (lower e)
        \<and> t = ''VALID_FAUCET_USAGE'' \<and> lower e \<notin> referee ` set (active f)
        \<and> referrer_count (lower r) f < 200 \<longrightarrow>
      fst (use_referral r e t f) = Inr ReferralRecorded)
   \<and> (\<forall>err. fst (use_referral r e t f) = Inl err \<longrightarrow> snd (use_referral r e t f) = f)"
  by (simp add: use_referral_result use_referral_failure_file)

theorem use_referral_validation_order_witness:
  "fst (use_referral ''0xabc'' bob ''WRONG'' None) = Inl InvalidAddress
   \<and> snd (use_referral ''0xabc'' bob ''WRONG'' None) = None
   \<and> fst (use_referral alice bob ''WRONG'' None) = Inl Unauthorized
   \<and> snd (use_referral alice bob ''WRONG'' None) = None
   \<and> fst (use_referral carol bob ''VALID_FAUCET_USAGE''
        (Some \<lparr>referrals = [\<lparr>referrer = alice, referee = bob, paid = False\<rparr>], paid_referrals = []\<rparr>))
       = Inl DuplicateReferee
   \<and> snd (use_referral carol bob ''VALID_FAUCET_USAGE''
        (Some \<lparr>referrals = [\<lparr>referrer = alice, referee = bob, paid = False\<rparr>], paid_referrals = []\<rparr>))
       = Some \<lparr>referrals = [\<lparr>referrer = alice, referee = bob, paid = False\<rparr>], paid_referrals = []\<rparr>
   \<and> fst (use_referral alice bob ''VALID_FAUCET_USAGE'' full_house) = Inl CapExceeded
   \<and> snd (use_referral alice bob ''VALID_FAUCET_USAGE'' full_house) = full_house
   \<and> fst (use_referral alice bob ''VALID_FAUCET_USAGE'' None) = Inr ReferralRecorded"
proof -
  have bad: "\<not> is_valid_address (lower ''0xabc'')"
    by (simp add: is_valid_address_def lower_def)
  note 1 = use_referral_validation_order [of "''0xabc''" bob "''WRONG''" None]
  note 2 = use_referral_validation_order [of alice bob "''WRONG''" None]
  note 3 = use_referral_validation_order [of carol bob "''VALID_FAUCET_USAGE''"
      "Some \<lparr>referrals = [\<lparr>referrer = alice, referee = bob, paid = False\<rparr>], paid_referrals = []\<rparr>"]
  note 4 = use_referral_validation_order [of alice bob "''VALID_FAUCET_USAGE''" full_house]
  note 5 = use_referral_validation_order [of alice bob "''VALID_FAUCET_USAGE''" None]
  from 1 bad have a: "fst (use_referral ''0xabc'' bob ''WRONG'' None) = Inl InvalidAddress"
    "snd (use_referral ''0xabc'' bob ''WRONG'' None) = None" by blast+
  from 2 have b: "fst (use_referral alice bob ''WRONG'' None) = Inl Unauthorized"
    "snd (use_referral alice bob ''WRONG'' None) = None"
    by (simp_all add: sample_simps)
  from 3 have c: "fst (use_referral carol bob ''VALID_FAUCET_USAGE''
        (Some \<lparr>referrals = [\<lparr>referrer = alice, referee = bob, paid = False\<rparr>], paid_referrals = []\<rparr>))
       = Inl DuplicateReferee"
    "snd (use_referral carol bob ''VALID_FAUCET_USAGE''
        (Some \<lparr>referrals = [\<lparr>referrer = alice, referee = bob, paid = False\<rparr>], paid_referrals = []\<rparr>))
       = Some \<lparr>referrals = [\<lparr>referrer = alice, referee = bob, paid = False\<rparr>], paid_referrals = []\<rparr>"
    by (simp_all add: sample_simps)
  from 4 full_house_count full_house_referees
  have d: "fst (use_referral alice bob ''VALID_FAUCET_USAGE'' full_house) = Inl CapExceeded"
    "snd (use_referral alice bob ''VALID_FAUCET_USAGE'' full_house) = full_house"
    by (simp_all add: sample_simps)
  from 5 have e: "fst (use_referral alice bob ''VALID_FAUCET_USAGE'' None) = Inr ReferralRecorded"
    by (simp add: sample_simps referrer_count_def)
  from a b c d e show ?thesis by simp
qed

section \<open>The payout list\<close>

lemma payout_fold:
  "foldl (\<lambda>acc ref. acc @ [\<lparr>wallet = referrer ref, amount = 5\<rparr>,
                            \<lparr>wallet = referee ref, amount = 5\<rparr>]) acc rs =
   acc @ concat (map (\<lambda>ref. [\<lparr>wallet = referrer ref, amount = 5\<rparr>,
                             \<lparr>wallet = referee ref, amount = 5\<rparr>]) rs)"
  by (induction rs arbitrary: acc) simp_all

lemma payout_length:
  "length (concat (map (\<lambda>ref. [\<lparr>wallet = referrer ref, amount = 5::nat\<rparr>,
                             \<lparr>wallet = referee ref, amount = 5\<rparr>]) rs)) = 2 * length rs"
  by (induction rs) simp_all

lemma payout_sum:
  "sum_list (map amount (concat (map (\<lambda>ref. [\<lparr>wallet = referrer ref, amount = 5::nat\<rparr>,
                             \<lparr>wallet = referee ref, amount = 5\<rparr>]) rs))) = 10 * length rs"
  by (induction rs) simp_all

lemma payout_list_body:
  "fst (payout_list f) =
     \<lparr>total_people = 2 * length (filter (\<lambda>r. \<not> paid r) (active f)),
      total_ommv_to_send = 10 * length (filter (\<lambda>r. \<not> paid r) (active f)),
      multisend_list = concat (map (\<lambda>ref. [\<lparr>wallet = referrer ref, amount = 5\<rparr>,
                             \<lparr>wallet = referee ref, amount = 5\<rparr>]) (filter (\<lambda>r. \<not> paid r) (active f)))\<rparr>"
  by (cases f)
    (simp_all add: payout_list_def load_data_def Let_def active_simps payout_fold payout_length
      payout_sum)

text \<open>
  C7: in every state reached from a ledger whose active records are unpaid (the missing
  file and the empty ledger are such), \<open>payout_list\<close> reports twice as many people as
  there are active records and five times as many units as people; the list holds, for
  each active record in order, an entry of 5 for the referrer and an entry of 5 for the
  referee, the empty referee of a registration record included; the ledger is unchanged.
\<close>

theorem payout_list_totals:
  assumes "\<forall>x\<in>set (active f0). \<not> paid x"
  shows "total_people (fst (payout_list (run qs f0))) = 2 * length (active (run qs f0))
    \<and> total_ommv_to_send (fst (payout_list (run qs f0)))
        = 5 * total_people (fst (payout_list (run qs f0)))
    \<and> multisend_list (fst (payout_list (run qs f0))) =
        concat (map (\<lambda>ref. [\<lparr>wallet = referrer ref, amount = 5\<rparr>,
                             \<lparr>wallet = referee ref, amount = 5\<rparr>]) (active (run qs f0)))
    \<and> active (snd (payout_list (run qs f0))) = active (run qs f0)
    \<and> archived (snd (payout_list (run qs f0))) = archived (run qs f0)"
proof -
  from assms have "\<forall>x\<in>set (active (run qs f0)). \<not> paid x"
    by (rule run_unpaid)
  then have "filter (\<lambda>r. \<not> paid r) (active (run qs f0)) = active (run qs f0)"
    by (simp add: filter_id_conv)
  then show ?thesis
    by (simp add: payout_list_body payout_list_ledger)
qed

theorem payout_list_totals_witness:
  "active (run [RegisterReferral alice, UseReferral alice bob ''VALID_FAUCET_USAGE''] None) =
     [\<lparr>referrer = alice, referee = '''', paid = False\<rparr>,
      \<lparr>referrer = alice, referee = bob, paid = False\<rparr>]
   \<and> total_people (fst (payout_list
        (run [RegisterReferral alice, UseReferral alice bob ''VALID_FAUCET_USAGE''] None))) = 4
   \<and> total_ommv_to_send (fst (payout_list
        (run [RegisterReferral alice, UseReferral alice bob ''VALID_FAUCET_USAGE''] None))) = 20
   \<and> multisend_list (fst (payout_list
        (run [RegisterReferral alice, UseReferral alice bob ''VALID_FAUCET_USAGE''] None))) =
       [\<lparr>wallet = alice, amount = 5\<rparr>, \<lparr>wallet = '''', amount = 5\<rparr>,
        \<lparr>wallet = alice, amount = 5\<rparr>, \<lparr>wallet = bob, amount = 5\<rparr>]"
proof -
  have 0: "\<forall>x\<in>set (active None). \<not> paid x" by (simp add: active_simps)
  have 1: "active (run [RegisterReferral alice, UseReferral alice bob ''VALID_FAUCET_USAGE''] None) =
     [\<lparr>referrer = alice, referee = '''', paid = False\<rparr>,
      \<lparr>referrer = alice, referee = bob, paid = False\<rparr>]"
    by (simp add: register_referral_active use_referral_active use_referral_result
        referrer_count_def sample_simps)
  show ?thesis
    using payout_list_totals [OF 0, of "[RegisterReferral alice, UseReferral alice bob ''VALID_FAUCET_USAGE'']"]
    unfolding 1 by simp
qed

section \<open>The status of a referrer\<close>

text \<open>
  C8: \<open>referral_status\<close> returns the active records whose referrer is the lower-cased
  address, in their order, their number as the total, and how many of them are paid and
  unpaid (the two add up to the total). Two ledgers with the same active records get the
  same answer, whatever is archived; right after a settlement the total is 0. The ledger
  is unchanged.
\<close>

theorem referral_status_active_only:
  "st_referrals (fst (referral_status a f)) = filter (\<lambda>r. referrer r = lower a) (active f)
   \<and> st_total_referrals (fst (referral_status a f))
       = length (filter (\<lambda>r. referrer r = lower a) (active f))
   \<and> st_paid (fst (referral_status a f))
       = length (filter (\<lambda>r. paid r) (filter (\<lambda>r. referrer r = lower a) (active f)))
   \<and> st_unpaid (fst (referral_status a f))
       = length (filter (\<lambda>r. \<not> paid r) (filter (\<lambda>r. referrer r = lower a) (active f)))
   \<and> st_paid (fst (referral_status a f)) + st_unpaid (fst (referral_status a f))
       = st_total_referrals (fst (referral_status a f))
   \<and> (active f' = active f \<longrightarrow> fst (referral_status a f') = fst (referral_status a f))
   \<and> st_total_referrals (fst (referral_status a (snd (mark_paid (Some SECRET_KEY) f)))) = 0
   \<and> active (snd (referral_status a f)) = active f
   \<and> archived (snd (referral_status a f)) = archived f"
proof -
  have body: "fst (referral_status a g) =
      \<lparr>st_total_referrals = length (filter (\<lambda>r. referrer r = lower a) (active g)),
       st_paid = length (filter (\<lambda>r. paid r) (filter (\<lambda>r. referrer r = lower a) (active g))),
       st_unpaid = length (filter (\<lambda>r. referrer r = lower a) (active g))
         - length (filter (\<lambda>r. paid r) (filter (\<lambda>r. referrer r = lower a) (active g))),
       st_referrals = filter (\<lambda>r. referrer r = lower a) (active g)\<rparr>" for g
    by (cases g)
      (simp_all add: referral_status_def load_data_def Let_def active_simps sum_list_ones)
  have split: "length (filter (\<lambda>r. paid r) xs) + length (filter (\<lambda>r. \<not> paid r) xs) = length xs"
    for xs :: "referral list"
    by (rule sum_length_filter_compl)
  have unpaid: "length xs - length (filter (\<lambda>r. paid r) xs) = length (filter (\<lambda>r. \<not> paid r) xs)"
    for xs :: "referral list"
    using split [of xs] by simp
  show ?thesis
    using split [of "filter (\<lambda>r. referrer r = lower a) (active f)"]
    by (simp add: body unpaid referral_status_ledger mark_paid_active)
qed

theorem referral_status_active_only_witness:
  "st_total_referrals (fst (referral_status ''0xAAAAAAAAAAAAAAAAAAAAAAAAAAAAAAAAAAAAAAAA''
     (Some \<lparr>referrals = [\<lparr>referrer = bob, referee = carol, paid = False\<rparr>,
                          \<lparr>referrer = alice, referee = [], paid = False\<rparr>,
                          \<lparr>referrer = alice, referee = carol, paid = False\<rparr>],
            paid_referrals = [\<lparr>referrer = alice, referee = bob, paid = True\<rparr>]\<rparr>))) = 2
   \<and> st_referrals (fst (referral_status ''0xAAAAAAAAAAAAAAAAAAAAAAAAAAAAAAAAAAAAAAAA''
     (Some \<lparr>referrals = [\<lparr>referrer = bob, referee = carol, paid = False\<rparr>,
                          \<lparr>referrer = alice, referee = [], paid = False\<rparr>,
                          \<lparr>referrer = alice, referee = carol, paid = False\<rparr>],
            paid_referrals = [\<lparr>referrer = alice, referee = bob, paid = True\<rparr>]\<rparr>)))
     = [\<lparr>referrer = alice, referee = [], paid = False\<rparr>,
        \<lparr>referrer = alice, referee = carol, paid = False\<rparr>]
   \<and> fst (referral_status ''0xAAAAAAAAAAAAAAAAAAAAAAAAAAAAAAAAAAAAAAAA''
     (Some \<lparr>referrals = [\<lparr>referrer = bob, referee = carol, paid = False\<rparr>,
                          \<lparr>referrer = alice, referee = [], paid = False\<rparr>,
                          \<lparr>referrer = alice, referee = carol, paid = False\<rparr>],
            paid_referrals = []\<rparr>))
     = fst (referral_status ''0xAAAAAAAAAAAAAAAAAAAAAAAAAAAAAAAAAAAAAAAA''
     (Some \<lparr>referrals = [\<lparr>referrer = bob, referee = carol, paid = False\<rparr>,
                          \<lparr>referrer = alice, referee = [], paid = False\<rparr>,
                          \<lparr>referrer = alice, referee = carol, paid = False\<rparr>],
            paid_referrals = [\<lparr>referrer = alice, referee = bob, paid = True\<rparr>]\<rparr>))
   \<and> st_total_referrals (fst (referral_status ''0xAAAAAAAAAAAAAAAAAAAAAAAAAAAAAAAAAAAAAAAA''
       (snd (mark_paid (Some SECRET_KEY)
         (Some \<lparr>referrals = [\<lparr>referrer = bob, referee = carol, paid = False\<rparr>,
                          \<lparr>referrer = alice, referee = [], paid = False\<rparr>,
                          \<lparr>referrer = alice, referee = carol, paid = False\<rparr>],
            paid_referrals = [\<lparr>referrer = alice, referee = bob, paid = True\<rparr>]\<rparr>))))) = 0"
proof -
  have low: "lower ''0xAAAAAAAAAAAAAAAAAAAAAAAAAAAAAAAAAAAAAAAA'' = alice"
    by code_simp
  note status = referral_status_active_only
      [of "''0xAAAAAAAAAAAAAAAAAAAAAAAAAAAAAAAAAAAAAAAA''"
        "Some \<lparr>referrals = [\<lparr>referrer = bob, referee = carol, paid = False\<rparr>,
                          \<lparr>referrer = alice, referee = [], paid = False\<rparr>,
                          \<lparr>referrer = alice, referee = carol, paid = False\<rparr>],
            paid_referrals = [\<lparr>referrer = alice, referee = bob, paid = True\<rparr>]\<rparr>"
        "Some \<lparr>referrals = [\<lparr>referrer = bob, referee = carol, paid = False\<rparr>,
                          \<lparr>referrer = alice, referee = [], paid = False\<rparr>,
                          \<lparr>referrer = alice, referee = carol, paid = False\<rparr>],
            paid_referrals = []\<rparr>"]
  from status show ?thesis
    unfolding low by (simp add: sample_simps)
qed

section \<open>The cap of 200 referrals\<close>

lemma addr_no_valid: "is_valid_address (addr_no n)"
  by (simp add: addr_no_def is_valid_address_def startswith_def)

lemma of_char_small: "j < 16 \<Longrightarrow> (of_char (char_of (97 + j :: nat)) :: nat) = 97 + j"
  by simp

lemma lower_char_small: "j < 16 \<Longrightarrow> lower_char (char_of (97 + j :: nat)) = char_of (97 + j)"
  by (simp only: lower_char_def Let_def of_char_small) simp

lemma addr_no_lower: "n < 256 \<Longrightarrow> lower (addr_no n) = addr_no n"
proof -
  assume "n < 256"
  then have "n div 16 < 16" by simp
  moreover have "n mod 16 < 16" by simp
  ultimately show ?thesis
    by (simp add: lower_def addr_no_def lower_char_small) (simp add: lower_char_def)
qed

lemma addr_no_inj:
  assumes "addr_no n = addr_no m" and "n < 256" and "m < 256"
  shows "n = m"
proof -
  have d: "n div 16 < 16" "m div 16 < 16" using assms(2,3) by simp_all
  have r: "n mod 16 < 16" "m mod 16 < 16" by simp_all
  from assms(1) have "char_of (97 + n div 16) = (char_of (97 + m div 16) :: char)"
    and "char_of (97 + n mod 16) = (char_of (97 + m mod 16) :: char)"
    by (simp_all add: addr_no_def)
  then have "(of_char (char_of (97 + n div 16) :: char) :: nat) = of_char (char_of (97 + m div 16) :: char)"
    and "(of_char (char_of (97 + n mod 16) :: char) :: nat) = of_char (char_of (97 + m mod 16) :: char)"
    by simp_all
  then have "n div 16 = m div 16" and "n mod 16 = m mod 16"
    using d r by (simp_all only: of_char_small)
  then show ?thesis
    by (metis div_mult_mod_eq)
qed

lemma attach_run_Suc:
  "attach_run (Suc k) = attach_run k @ [UseReferral alice (addr_no k) ''VALID_FAUCET_USAGE'']"
  by (simp add: attach_run_def)

lemma attach_run_no_settle: "filter settles (attach_run k) = []"
  by (simp add: attach_run_def filter_empty_conv)

lemma attach_run_from:
  assumes base: "\<forall>x\<in>set (active f0). \<forall>n. referee x \<noteq> addr_no n"
    and cnt0: "referrer_count alice f0 = c"
  shows "k + c \<le> 200 \<Longrightarrow>
    active (run (attach_run k) f0) =
      active f0 @ map (\<lambda>n. \<lparr>referrer = alice, referee = addr_no n, paid = False\<rparr>) [0..<k]
    \<and> attach_count alice (attach_run k) f0 = k"
proof (induction k)
  case 0
  then show ?case by (simp add: attach_run_def)
next
  case (Suc k)
  let ?f = "run (attach_run k) f0"
  from Suc have act: "active ?f =
      active f0 @ map (\<lambda>n. \<lparr>referrer = alice, referee = addr_no n, paid = False\<rparr>) [0..<k]"
    and cnt: "attach_count alice (attach_run k) f0 = k" and k: "k + c < 200"
    by simp_all
  have fresh: "addr_no k \<notin> referee ` set (active ?f)"
  proof
    assume "addr_no k \<in> referee ` set (active ?f)"
    then consider x where "x \<in> set (active f0)" and "referee x = addr_no k"
      | n where "n < k" and "addr_no k = addr_no n"
      unfolding act by auto
    then show False
    proof cases
      case 1
      with base show False by blast
    next
      case 2
      with k have "k = n" by (intro addr_no_inj) simp_all
      with \<open>n < k\<close> show False by simp
    qed
  qed
  have count: "referrer_count alice ?f = c + k"
    using cnt0 by (simp add: referrer_count_def act filter_map o_def)
  have ok: "fst (use_referral alice (addr_no k) ''VALID_FAUCET_USAGE'' ?f) = Inr ReferralRecorded"
    using k fresh count
    by (simp add: use_referral_result lower_samples valid_samples addr_no_valid addr_no_lower)
  have "active (run (attach_run (Suc k)) f0) =
      active f0 @ map (\<lambda>n. \<lparr>referrer = alice, referee = addr_no n, paid = False\<rparr>) [0..<Suc k]"
    using k ok
    by (simp add: attach_run_Suc run_append use_referral_success_active act lower_samples
        addr_no_lower)
  moreover have "attach_count alice (attach_run (Suc k)) f0 = Suc k"
    using ok by (simp add: attach_run_Suc attach_count_append cnt lower_samples)
  ultimately show ?case by simp
qed

lemma attach_run_state:
  "k \<le> 200 \<Longrightarrow>
   active (run (attach_run k) None) =
     map (\<lambda>n. \<lparr>referrer = alice, referee = addr_no n, paid = False\<rparr>) [0..<k]
   \<and> attach_count alice (attach_run k) None = k"
  using attach_run_from [of None 0 k]
  by (simp add: active_simps referrer_count_def)

lemma registered_state:
  "active (run [RegisterReferral alice] None) = [\<lparr>referrer = alice, referee = [], paid = False\<rparr>]"
  by (simp add: register_referral_active sample_simps)

lemma attach_run_registered:
  "k \<le> 199 \<Longrightarrow>
   active (run (attach_run k) (run [RegisterReferral alice] None)) =
     \<lparr>referrer = alice, referee = [], paid = False\<rparr>
       # map (\<lambda>n. \<lparr>referrer = alice, referee = addr_no n, paid = False\<rparr>) [0..<k]
   \<and> attach_count alice (attach_run k) (run [RegisterReferral alice] None) = k"
proof -
  have 1: "\<forall>x\<in>set (active (run [RegisterReferral alice] None)). \<forall>n. referee x \<noteq> addr_no n"
    unfolding registered_state by (simp add: addr_no_def)
  have 2: "referrer_count alice (run [RegisterReferral alice] None) = 1"
    unfolding referrer_count_def registered_state by simp
  show "k \<le> 199 \<Longrightarrow> ?thesis"
    using attach_run_from [OF 1 2, of k] unfolding registered_state by simp
qed

lemma attach_count_valid:
  "0 < attach_count r qs f \<Longrightarrow> is_valid_address r"
proof (induction qs arbitrary: f)
  case Nil
  then show ?case by simp
next
  case (Cons q qs)
  show ?case
  proof (cases "attaches r q f")
    case True
    then obtain r' e t where "q = UseReferral r' e t" and "lower r' = r"
      and "fst (use_referral r' e t f) = Inr ReferralRecorded"
      by (cases q) simp_all
    then show ?thesis
      by (auto simp: use_referral_result split: if_splits)
  next
    case False
    with Cons.prems have "0 < attach_count r qs (step q f)" by simp
    then show ?thesis by (rule Cons.IH)
  qed
qed

text \<open>
  C6 as stated (after 200 successful attachments to a referrer the 201st fails with
  \<open>CapExceeded\<close>) fails when the records are settled in between: 200 wallets are
  attached to \<open>alice\<close>, each with success, the records are settled, and the 201st
  attachment to \<open>alice\<close> is accepted.
\<close>

theorem use_referral_accepted_after_settlement:
  "attach_count alice (attach_run 200) None = 200
   \<and> fst (use_referral alice bob ''VALID_FAUCET_USAGE''
         (run (attach_run 200 @ [MarkPaid (Some SECRET_KEY)]) None)) = Inr ReferralRecorded"
proof -
  have "attach_count alice (attach_run 200) None = 200"
    using attach_run_state [of 200] by simp
  moreover have "active (run (attach_run 200 @ [MarkPaid (Some SECRET_KEY)]) None) = []"
    by (simp add: run_append mark_paid_active)
  then have "fst (use_referral alice bob ''VALID_FAUCET_USAGE''
         (run (attach_run 200 @ [MarkPaid (Some SECRET_KEY)]) None)) = Inr ReferralRecorded"
    by (simp add: use_referral_result referrer_count_def lower_samples valid_samples)
  ultimately show ?thesis by simp
qed

text \<open>
  C6, amended: take any run of requests without a settlement in which 200 requests attach
  a referee to the referrer \<open>lower r\<close> with success. The next \<open>use_referral\<close> for that
  referrer fails, and the order of the checks decides the error: \<open>InvalidAddress\<close> for a
  malformed referee, \<open>Unauthorized\<close> for a wrong token, \<open>DuplicateReferee\<close> for a referee
  of an active record, and \<open>CapExceeded\<close> in every other case (the referrer is well-formed
  since it was accepted before). In every run, settlements included, a referrer with at
  most 200 active records at the start has at most 200 at the end; the missing file is
  such a start.
\<close>

theorem use_referral_cap:
  "((\<forall>q\<in>set qs. \<not> settles q) \<and> 200 \<le> attach_count (lower r) qs f \<longrightarrow>
      fst (use_referral r e t (run qs f)) =
        (if \<not> is_valid_address (lower e) then Inl InvalidAddress
         else if t \<noteq> ''VALID_FAUCET_USAGE'' then Inl Unauthorized
         else if lower e \<in> referee ` set (active (run qs f)) then Inl DuplicateReferee
         else Inl CapExceeded))
   \<and> (referrer_count r' f \<le> 200 \<longrightarrow> referrer_count r' (run qs' f) \<le> 200)"
proof -
  have "fst (use_referral r e t (run qs f)) =
        (if \<not> is_valid_address (lower e) then Inl InvalidAddress
         else if t \<noteq> ''VALID_FAUCET_USAGE'' then Inl Unauthorized
         else if lower e \<in> referee ` set (active (run qs f)) then Inl DuplicateReferee
         else Inl CapExceeded)"
    if quiet: "\<forall>q\<in>set qs. \<not> settles q" and many: "200 \<le> attach_count (lower r) qs f"
  proof -
    from many have valid: "is_valid_address (lower r)"
      by (intro attach_count_valid [of "lower r" qs f]) simp
    have "referrer_count (lower r) f + attach_count (lower r) qs f
        \<le> referrer_count (lower r) (run qs f)"
      using quiet by (rule run_count)
    with many have full: "200 \<le> referrer_count (lower r) (run qs f)" by simp
    then show ?thesis
      using valid by (simp add: use_referral_result)
  qed
  moreover have "referrer_count r' (run qs' f) \<le> 200" if "referrer_count r' f \<le> 200"
    using that by (rule run_cap)
  ultimately show ?thesis by blast
qed

theorem use_referral_cap_witness:
  "filter settles (attach_run 200) = []
   \<and> attach_count alice (attach_run 200) None = 200
   \<and> fst (use_referral alice bob ''VALID_FAUCET_USAGE'' (run (attach_run 200) None)) = Inl CapExceeded
   \<and> fst (use_referral alice (addr_no 7) ''VALID_FAUCET_USAGE'' (run (attach_run 200) None))
       = Inl DuplicateReferee
   \<and> fst (use_referral alice ''0xabc'' ''VALID_FAUCET_USAGE'' (run (attach_run 200) None))
       = Inl InvalidAddress
   \<and> referrer_count alice (run (attach_run 200) None) = 200
   \<and> referrer_count alice (run (attach_run 200 @ [MarkPaid (Some SECRET_KEY)]) None) \<le> 200"
proof -
  have quiet: "\<forall>q\<in>set (attach_run 200). \<not> settles q"
    using attach_run_no_settle [of 200] by (simp add: filter_empty_conv)
  have st: "active (run (attach_run 200) None) =
      map (\<lambda>n. \<lparr>referrer = alice, referee = addr_no n, paid = False\<rparr>) [0..<200]"
    and cnt: "attach_count alice (attach_run 200) None = 200"
    using attach_run_state [of 200] by simp_all
  have fresh: "bob \<notin> referee ` set (active (run (attach_run 200) None))"
    unfolding st by (auto simp: addr_no_not_sample)
  have dup: "addr_no 7 \<in> referee ` set (active (run (attach_run 200) None))"
    unfolding st by (simp add: image_iff) (rule bexI [of _ 7], simp_all)
  have bad: "\<not> is_valid_address (lower ''0xabc'')"
    by (simp add: is_valid_address_def lower_def)
  have full: "referrer_count alice (run (attach_run 200) None) = 200"
    by (simp add: referrer_count_def st filter_map o_def)
  have start: "referrer_count alice None \<le> 200"
    by (simp add: referrer_count_def active_simps)
  note cap = use_referral_cap [of "attach_run 200" alice None _ "''VALID_FAUCET_USAGE''" alice
      "attach_run 200 @ [MarkPaid (Some SECRET_KEY)]"]
  from cap [of bob] quiet cnt fresh
  have a: "fst (use_referral alice bob ''VALID_FAUCET_USAGE'' (run (attach_run 200) None)) = Inl CapExceeded"
    by (simp add: lower_samples valid_samples)
  from cap [of "addr_no 7"] quiet cnt dup
  have b: "fst (use_referral alice (addr_no 7) ''VALID_FAUCET_USAGE'' (run (attach_run 200) None))
       = Inl DuplicateReferee"
    by (simp add: lower_samples addr_no_lower addr_no_valid)
  from cap [of "''0xabc''"] quiet cnt bad
  have c: "fst (use_referral alice ''0xabc'' ''VALID_FAUCET_USAGE'' (run (attach_run 200) None))
       = Inl InvalidAddress"
    by (simp add: lower_samples)
  from cap [of bob] start
  have d: "referrer_count alice (run (attach_run 200 @ [MarkPaid (Some SECRET_KEY)]) None) \<le> 200"
    by blast
  from a b c d cnt full attach_run_no_settle [of 200] show ?thesis by simp
qed

section \<open>The registration record and the cap\<close>

lemma count_split:
  "length (filter (\<lambda>x. referrer x = r) xs) =
     length (filter (\<lambda>x. referrer x = r \<and> referee x \<noteq> []) xs)
     + length (filter (\<lambda>x. referrer x = r \<and> referee x = []) xs)"
  by (induction xs) simp_all

text \<open>
  C10 as stated (a referrer who registered first attaches at most 199 referees) fails when
  the records are settled in between: \<open>alice\<close> registers, 199 wallets are attached to
  her, the records are settled, and one more wallet is attached: 200 attachments to
  \<open>alice\<close> have succeeded.
\<close>

theorem registered_referrer_attaches_200:
  "\<lparr>referrer = alice, referee = [], paid = False\<rparr>
     \<in> set (active (run [RegisterReferral alice] None))
   \<and> attach_count alice
        (attach_run 199 @ [MarkPaid (Some SECRET_KEY), UseReferral alice bob ''VALID_FAUCET_USAGE''])
        (run [RegisterReferral alice] None) = 200"
proof -
  let ?f1 = "run [RegisterReferral alice] None"
  have first: "attach_count alice (attach_run 199) ?f1 = 199"
    using attach_run_registered [of 199] by simp
  have "active (step (MarkPaid (Some SECRET_KEY)) (run (attach_run 199) ?f1)) = []"
    by (simp add: mark_paid_active)
  then have "fst (use_referral alice bob ''VALID_FAUCET_USAGE''
      (step (MarkPaid (Some SECRET_KEY)) (run (attach_run 199) ?f1))) = Inr ReferralRecorded"
    by (simp add: use_referral_result referrer_count_def lower_samples valid_samples)
  then have last: "attach_count alice
      [MarkPaid (Some SECRET_KEY), UseReferral alice bob ''VALID_FAUCET_USAGE'']
      (run (attach_run 199) ?f1) = 1"
    by (simp add: lower_samples)
  have "attach_count alice
        (attach_run 199 @ [MarkPaid (Some SECRET_KEY), UseReferral alice bob ''VALID_FAUCET_USAGE''])
        ?f1 = 200"
    unfolding attach_count_append first last by simp
  then show ?thesis
    unfolding registered_state by simp
qed

text \<open>
  C10, amended: let the registration record of the referrer \<open>lower r\<close> (empty referee,
  unpaid) be active, and take a \<open>use_referral\<close> for that referrer that passes the three
  earlier checks. It is answered with \<open>CapExceeded\<close> as soon as 199 active records attach
  a referee to the referrer: the registration record is the 200th. It is accepted when
  the registration record is the only one of the referrer with an empty referee and
  fewer than 199 active records attach a referee to the referrer. And when the referrer
  has at most 200 active records, no run without a settlement attaches more than 199
  referees to it.
\<close>

theorem registration_counts_toward_cap:
  assumes "\<lparr>referrer = lower r, referee = [], paid = False\<rparr> \<in> set (active f)"
  shows "(is_valid_address (lower r) \<and> is_valid_address (lower e) \<and> t = ''VALID_FAUCET_USAGE''
          \<and> lower e \<notin> referee ` set (active f)
          \<and> 199 \<le> length (filter (\<lambda>x. referrer x = lower r \<and> referee x \<noteq> []) (active f)) \<longrightarrow>
        fst (use_referral r e t f) = Inl CapExceeded)
    \<and> (is_valid_address (lower r) \<and> is_valid_address (lower e) \<and> t = ''VALID_FAUCET_USAGE''
          \<and> lower e \<notin> referee ` set (active f)
          \<and> length (filter (\<lambda>x. referrer x = lower r \<and> referee x = []) (active f)) = 1
          \<and> length (filter (\<lambda>x. referrer x = lower r \<and> referee x \<noteq> []) (active f)) < 199 \<longrightarrow>
        fst (use_referral r e t f) = Inr ReferralRecorded)
    \<and> ((\<forall>q\<in>set qs. \<not> settles q) \<and> referrer_count (lower r) f \<le> 200 \<longrightarrow>
        attach_count (lower r) qs f \<le> 199)"
proof -
  from assms have "filter (\<lambda>x. referrer x = lower r \<and> referee x = []) (active f) \<noteq> []"
    by (force simp: filter_empty_conv)
  then have reg: "1 \<le> length (filter (\<lambda>x. referrer x = lower r \<and> referee x = []) (active f))"
    by (simp add: Suc_le_eq)
  have total: "referrer_count (lower r) f =
      length (filter (\<lambda>x. referrer x = lower r \<and> referee x \<noteq> []) (active f))
      + length (filter (\<lambda>x. referrer x = lower r \<and> referee x = []) (active f))"
    unfolding referrer_count_def by (rule count_split)
  have one: "1 \<le> referrer_count (lower r) f"
    using reg total by simp
  have "fst (use_referral r e t f) = Inl CapExceeded"
    if "is_valid_address (lower r)" "is_valid_address (lower e)" "t = ''VALID_FAUCET_USAGE''"
      "lower e \<notin> referee ` set (active f)"
      "199 \<le> length (filter (\<lambda>x. referrer x = lower r \<and> referee x \<noteq> []) (active f))"
  proof -
    from that(5) reg total have "200 \<le> referrer_count (lower r) f" by simp
    with that(1-4) show ?thesis by (simp add: use_referral_result)
  qed
  moreover have "fst (use_referral r e t f) = Inr ReferralRecorded"
    if "is_valid_address (lower r)" "is_valid_address (lower e)" "t = ''VALID_FAUCET_USAGE''"
      "lower e \<notin> referee ` set (active f)"
      "length (filter (\<lambda>x. referrer x = lower r \<and> referee x = []) (active f)) = 1"
      "length (filter (\<lambda>x. referrer x = lower r \<and> referee x \<noteq> []) (active f)) < 199"
  proof -
    from that(5,6) total have "\<not> 200 \<le> referrer_count (lower r) f" by simp
    with that(1-4) show ?thesis by (simp add: use_referral_result)
  qed
  moreover have "attach_count (lower r) qs f \<le> 199"
    if quiet: "\<forall>q\<in>set qs. \<not> settles q" and cap: "referrer_count (lower r) f \<le> 200"
  proof -
    have "referrer_count (lower r) f + attach_count (lower r) qs f
        \<le> referrer_count (lower r) (run qs f)"
      using quiet by (rule run_count)
    moreover have "referrer_count (lower r) (run qs f) \<le> 200"
      using cap by (rule run_cap)
    ultimately show ?thesis using one by simp
  qed
  ultimately show ?thesis by blast
qed

theorem registration_counts_toward_cap_witness:
  "\<lparr>referrer = alice, referee = [], paid = False\<rparr>
     \<in> set (active (run [RegisterReferral alice] None))
   \<and> fst (use_referral alice bob ''VALID_FAUCET_USAGE'' (run [RegisterReferral alice] None))
       = Inr ReferralRecorded
   \<and> filter settles (attach_run 199) = []
   \<and> attach_count alice (attach_run 199) (run [RegisterReferral alice] None) = 199
   \<and> attach_count alice (attach_run 199) (run [RegisterReferral alice] None) \<le> 199
   \<and> active (run (attach_run 199) (run [RegisterReferral alice] None)) = active registered_house
   \<and> length (filter (\<lambda>x. referrer x = alice \<and> referee x \<noteq> []) (active registered_house)) = 199
   \<and> fst (use_referral alice bob ''VALID_FAUCET_USAGE''
        (run (attach_run 199) (run [RegisterReferral alice] None))) = Inl CapExceeded"
proof -
  let ?f1 = "run [RegisterReferral alice] None"
  let ?f2 = "run (attach_run 199) ?f1"
  have reg1: "\<lparr>referrer = lower alice, referee = [], paid = False\<rparr> \<in> set (active ?f1)"
    unfolding registered_state by (simp add: lower_samples)
  have st: "active ?f2 = active registered_house"
    and cnt: "attach_count alice (attach_run 199) ?f1 = 199"
    using attach_run_registered [of 199] by (simp_all add: registered_house_def active_simps)
  have reg2: "\<lparr>referrer = lower alice, referee = [], paid = False\<rparr> \<in> set (active ?f2)"
    unfolding st by (simp add: registered_house_def active_simps lower_samples)
  have n199: "length (filter (\<lambda>x. referrer x = alice \<and> referee x \<noteq> []) (active registered_house)) = 199"
    by (simp add: registered_house_def active_simps filter_map o_def addr_no_def)
  have fresh2: "bob \<notin> referee ` set (active ?f2)"
    unfolding st by (auto simp: registered_house_def active_simps addr_no_not_sample distinct_samples)
  have quiet: "\<forall>q\<in>set (attach_run 199). \<not> settles q"
    using attach_run_no_settle [of 199] by (simp add: filter_empty_conv)
  have small: "referrer_count alice ?f1 \<le> 200"
    unfolding referrer_count_def registered_state by simp
  from registration_counts_toward_cap [OF reg1, of bob "''VALID_FAUCET_USAGE''" "attach_run 199"]
  have a: "fst (use_referral alice bob ''VALID_FAUCET_USAGE'' ?f1) = Inr ReferralRecorded"
    and b: "attach_count alice (attach_run 199) ?f1 \<le> 199"
    using quiet small unfolding lower_samples registered_state
    by (simp_all add: valid_samples distinct_samples)
  from registration_counts_toward_cap [OF reg2, of bob "''VALID_FAUCET_USAGE''" "[]"] n199 fresh2
  have c: "fst (use_referral alice bob ''VALID_FAUCET_USAGE'' ?f2) = Inl CapExceeded"
    unfolding lower_samples st by (simp add: valid_samples)
  from reg1 a b c cnt st n199 attach_run_no_settle [of 199] show ?thesis
    unfolding lower_samples by simp
qed

end
